theory Spec2Isabelle
  imports Main "HOL-Library.Sublist"
begin

section \<open>Python values and subscripting\<close>

text \<open>
  The values that reach \<^verbatim>\<open>get_value_at_index\<close>: a step result is an ordered sequence
  (list or tuple) or a mapping (dict); the elements are arbitrary objects. A dict is keyed
  by hashable values, of which the program uses integers and strings.
\<close>

datatype key = IntKey int | StrKey string

datatype pyobj =
    PyNone
  | PyInt int
  | PyStr string
  | PySeq "pyobj list"
  | PyMap "key \<Rightarrow> pyobj option"

text \<open>
  The exceptions of the modelled fragment. \<open>KeyError\<close> carries the missing key, as
  Python's does. The next three are the \<open>OSError\<close>s that \<^verbatim>\<open>os.listdir\<close> and
  \<^verbatim>\<open>os.getcwd\<close> raise; the last is what a call beyond the interpreter's recursion limit
  raises.
\<close>

datatype exn =
    KeyError key
  | IndexError
  | TypeError
  | FileNotFoundError
  | NotADirectoryError
  | PermissionError
  | RecursionError

text \<open>
  \<^verbatim>\<open>xs[i]\<close> on a sequence: a negative index counts from the end, and an index outside
  \<open>-len(xs) \<le> i < len(xs)\<close> raises \<open>IndexError\<close>.
\<close>

definition seq_getitem :: "'a list \<Rightarrow> int \<Rightarrow> exn + 'a" where
  "seq_getitem xs i =
     (let n = int (length xs);
          j = (if i < 0 then i + n else i)
      in if 0 \<le> j \<and> j < n then Inr (xs ! nat j) else Inl IndexError)"

text \<open>
  \<^verbatim>\<open>obj[k]\<close>: a sequence or a string takes an integer (anything else is a
  \<open>TypeError\<close>), a dict looks the key up and raises \<open>KeyError\<close> when it is missing,
  and \<open>None\<close> and integers are not subscriptable.
\<close>

fun getitem :: "pyobj \<Rightarrow> key \<Rightarrow> exn + pyobj" where
  "getitem (PySeq xs) (IntKey i) = seq_getitem xs i"
| "getitem (PySeq xs) (StrKey s) = Inl TypeError"
| "getitem (PyStr s) (IntKey i) =
     (case seq_getitem s i of Inl e \<Rightarrow> Inl e | Inr c \<Rightarrow> Inr (PyStr [c]))"
| "getitem (PyStr s) (StrKey t) = Inl TypeError"
| "getitem (PyMap m) k = (case m k of None \<Rightarrow> Inl (KeyError k) | Some v \<Rightarrow> Inr v)"
| "getitem PyNone k = Inl TypeError"
| "getitem (PyInt n) k = Inl TypeError"

section \<open>\<^verbatim>\<open>get_value_at_index\<close>\<close>

text \<open>
  \<^verbatim>\<open>
  def get_value_at_index(obj, index):
      try:
          return obj[index]
      except KeyError:
          return obj["result"][index]
  \<close>
  The function returns the keys it subscripted with, in order, next to its result: the
  first component shows whether the handler ran. Only a \<open>KeyError\<close> of the direct
  access enters the handler; every other exception, and every exception raised inside the
  handler, leaves the function.
\<close>

definition get_value_at_index :: "pyobj \<Rightarrow> int \<Rightarrow> key list \<times> (exn + pyobj)" where
  "get_value_at_index obj index =
     (case getitem obj (IntKey index) of
        Inr v \<Rightarrow> ([IntKey index], Inr v)
      | Inl (KeyError k) \<Rightarrow>
          (case getitem obj (StrKey ''result'') of
             Inl e \<Rightarrow> ([IntKey index, StrKey ''result''], Inl e)
           | Inr r \<Rightarrow> ([IntKey index, StrKey ''result'', IntKey index], getitem r (IntKey index)))
      | Inl e \<Rightarrow> ([IntKey index], Inl e))"

section \<open>The operating system as the program sees it\<close>

text \<open>
  \<^verbatim>\<open>find_path\<close> reads the file system through \<^verbatim>\<open>os.getcwd\<close>, \<^verbatim>\<open>os.listdir\<close>
  and \<^verbatim>\<open>os.path.isdir\<close>. Their answers are the fields of a record: \<open>listdir\<close> gives the
  entry names of a directory or the \<open>OSError\<close> it raises (the path does not exist, is not
  a directory, or may not be read), \<open>getcwd\<close> likewise, and \<open>isdir\<close> never raises.
  Nothing is assumed about how the answers for different paths relate.
\<close>

record os_env =
  getcwd :: "exn + string"
  listdir :: "string \<Rightarrow> exn + string list"
  isdir :: "string \<Rightarrow> bool"

text \<open>What the program does to the outside, in order: directories listed, lines printed.\<close>

datatype event = Listdir string | Print string

fun is_Listdir :: "event \<Rightarrow> bool" where
  "is_Listdir (Listdir p) = True"
| "is_Listdir (Print s) = False"

section \<open>\<^verbatim>\<open>os.path\<close> on POSIX\<close>

text \<open>
  \<^verbatim>\<open>os.path.dirname\<close> and \<^verbatim>\<open>os.path.join\<close> are those of CPython's \<^verbatim>\<open>posixpath\<close>; both
  work on the text of the path alone.
  \<^verbatim>\<open>
  def dirname(p):
      i = p.rfind('/') + 1
      head = p[:i]
      if head and head != '/' * len(head):
          head = head.rstrip('/')
      return head
  \<close>
\<close>

definition sep :: char where
  "sep = CHR ''/''"

definition rstrip_sep :: "string \<Rightarrow> string" where
  "rstrip_sep s = rev (dropWhile (\<lambda>c. c = sep) (rev s))"

definition dirname :: "string \<Rightarrow> string" where
  "dirname p =
     (let head = rev (dropWhile (\<lambda>c. c \<noteq> sep) (rev p))
      in if head \<noteq> [] \<and> head \<noteq> replicate (length head) sep then rstrip_sep head else head)"

text \<open>
  \<^verbatim>\<open>
  def join(a, b):
      if b.startswith('/') or not a:  return b
      elif a.endswith('/'):           return a + b
      else:                           return a + '/' + b
  \<close>
\<close>

definition join :: "string \<Rightarrow> string \<Rightarrow> string" where
  "join a b =
     (if (b \<noteq> [] \<and> hd b = sep) \<or> a = [] then b
      else if last a = sep then a @ b
      else a @ [sep] @ b)"

text \<open>\<^verbatim>\<open>os.path.isabs\<close>: the path starts with a slash.\<close>

definition isabs :: "string \<Rightarrow> bool" where
  "isabs p = (p \<noteq> [] \<and> hd p = sep)"

section \<open>\<^verbatim>\<open>find_path\<close>\<close>

text \<open>
  \<^verbatim>\<open>
  def find_path(name, path=None):
      if path is None:
          path = os.getcwd()
      if name in os.listdir(path):
          path_name = os.path.join(path, name)
          print(f"{name} found: {path_name}")
          return path_name
      parent_directory = os.path.dirname(path)
      if parent_directory == path:
          return None
      return find_path(name, parent_directory)
  \<close>
  The result is the events of the call, in order, and either the exception that left the
  function or its return value (\<open>None\<close> or the path). \<open>start_directory\<close> is the
  first statement: the directory the call looks at.

  The last line is a plain call of the function by itself, one for every parent step, and
  the interpreter admits only so many nested Python frames
  (\<^verbatim>\<open>sys.getrecursionlimit()\<close>, 1000 unless changed, less the frames in use): a call that
  needs one more raises \<open>RecursionError\<close>. The argument \<open>frames\<close> is the number of
  frames the interpreter still admits when \<^verbatim>\<open>find_path\<close> is called; the call takes
  one of them. \<^verbatim>\<open>os.getcwd\<close>, \<^verbatim>\<open>os.listdir\<close> and \<^verbatim>\<open>print\<close> are C functions and
  take none. \<^verbatim>\<open>os.path.join\<close> and \<^verbatim>\<open>os.path.dirname\<close> are Python functions of
  \<^verbatim>\<open>posixpath\<close>, and each calls the Python function \<^verbatim>\<open>_get_sep\<close>: a call of either
  needs two frames above its caller's.
\<close>

definition posixpath_frames :: nat where
  "posixpath_frames = 2"

definition os_path_join :: "nat \<Rightarrow> string \<Rightarrow> string \<Rightarrow> exn + string" where
  "os_path_join frames a b =
     (if frames < posixpath_frames then Inl RecursionError else Inr (join a b))"

definition os_path_dirname :: "nat \<Rightarrow> string \<Rightarrow> exn + string" where
  "os_path_dirname frames p =
     (if frames < posixpath_frames then Inl RecursionError else Inr (dirname p))"

definition start_directory :: "os_env \<Rightarrow> string option \<Rightarrow> exn + string" where
  "start_directory env path = (case path of None \<Rightarrow> getcwd env | Some p \<Rightarrow> Inr p)"

function find_path ::
  "os_env \<Rightarrow> nat \<Rightarrow> string \<Rightarrow> string option \<Rightarrow> event list \<times> (exn + string option)" where
  "find_path env frames name path =
     (if frames = 0 then ([], Inl RecursionError)
      else
        (case start_directory env path of
           Inl e \<Rightarrow> ([], Inl e)
         | Inr path \<Rightarrow>
             (case listdir env path of
                Inl e \<Rightarrow> ([Listdir path], Inl e)
              | Inr entries \<Rightarrow>
                  if name \<in> set entries then
                    (case os_path_join (frames - 1) path name of
                       Inl e \<Rightarrow> ([Listdir path], Inl e)
                     | Inr path_name \<Rightarrow>
                         ([Listdir path, Print (name @ '' found: '' @ path_name)],
                          Inr (Some path_name)))
                  else
                    (case os_path_dirname (frames - 1) path of
                       Inl e \<Rightarrow> ([Listdir path], Inl e)
                     | Inr parent_directory \<Rightarrow>
                         if parent_directory = path then ([Listdir path], Inr None)
                         else (case find_path env (frames - 1) name (Some parent_directory) of
                                 (evs, r) \<Rightarrow> (Listdir path # evs, r))))))"
  by pat_completeness auto

section \<open>\<^verbatim>\<open>add_comfyui_directory_to_sys_path\<close>\<close>

text \<open>
  \<^verbatim>\<open>
  def add_comfyui_directory_to_sys_path():
      comfyui_path = find_path("ComfyUI")
      if comfyui_path is not None and os.path.isdir(comfyui_path):
          sys.path.append(comfyui_path)
          print(f"'{comfyui_path}' added to sys.path")
  \<close>
  \<^verbatim>\<open>sys.path\<close> is passed in and returned; the third component is the exception that left
  the function, if one did. \<open>frames\<close> is the number of frames the interpreter admits
  inside the body, which is what the call of \<^verbatim>\<open>find_path\<close> gets. \<^verbatim>\<open>os.path.isdir\<close>
  is a Python function that takes one frame and catches the \<open>OSError\<close> of its
  \<^verbatim>\<open>os.stat\<close>; it is called only after \<^verbatim>\<open>find_path\<close> returned a path, which took three
  frames, so it never lacks its frame.
\<close>

definition add_comfyui_directory_to_sys_path ::
  "os_env \<Rightarrow> nat \<Rightarrow> string list \<Rightarrow> event list \<times> string list \<times> exn option" where
  "add_comfyui_directory_to_sys_path env frames sys_path =
     (case find_path env frames ''ComfyUI'' None of
        (evs, Inl e) \<Rightarrow> (evs, sys_path, Some e)
      | (evs, Inr None) \<Rightarrow> (evs, sys_path, None)
      | (evs, Inr (Some comfyui_path)) \<Rightarrow>
          if isdir env comfyui_path then
            (evs @ [Print ([CHR 0x27] @ comfyui_path @ [CHR 0x27] @ '' added to sys.path'')],
             sys_path @ [comfyui_path], None)
          else (evs, sys_path, None))"

section \<open>Ancestors and depth of a path\<close>

text \<open>
  The \<open>k\<close>-th ancestor of a path is what \<open>k\<close> applications of \<^verbatim>\<open>os.path.dirname\<close> leave
  of it: the directory \<^verbatim>\<open>find_path\<close> looks at after \<open>k\<close> parent steps.
\<close>

primrec ancestor :: "nat \<Rightarrow> string \<Rightarrow> string" where
  "ancestor 0 p = p"
| "ancestor (Suc k) p = ancestor k (dirname p)"

text \<open>
  The number of parent steps from a path to the fixed point of \<^verbatim>\<open>os.path.dirname\<close>,
  where \<^verbatim>\<open>find_path\<close> gives up.
\<close>

function hops :: "string \<Rightarrow> nat" where
  "hops p = (if dirname p = p then 0 else Suc (hops (dirname p)))"
  by pat_completeness auto

text \<open>A directory can be listed; a directory can be listed and has an entry of this name.\<close>

definition listable :: "os_env \<Rightarrow> string \<Rightarrow> bool" where
  "listable env p = (case listdir env p of Inl e \<Rightarrow> False | Inr entries \<Rightarrow> True)"

definition has_entry :: "os_env \<Rightarrow> string \<Rightarrow> string \<Rightarrow> bool" where
  "has_entry env p name = (case listdir env p of Inl e \<Rightarrow> False | Inr entries \<Rightarrow> name \<in> set entries)"

text \<open>
  The depth of a path is the number of its components, the maximal runs of characters
  other than the separator: 0 for \<^verbatim>\<open>/\<close>, 3 for \<^verbatim>\<open>/a/b/c\<close>. The flag says whether the
  next character would start a component.
\<close>

fun components_from :: "bool \<Rightarrow> string \<Rightarrow> nat" where
  "components_from start [] = 0"
| "components_from start (c # cs) =
     (if c = sep then components_from True cs
      else (if start then 1 else 0) + components_from False cs)"

definition depth :: "string \<Rightarrow> nat" where
  "depth p = components_from True p"

text \<open>
  A path that ends in a separator without being separators only, such as \<^verbatim>\<open>/a/b/\<close>:
  the first \<^verbatim>\<open>os.path.dirname\<close> removes the separators and no component.
\<close>

definition trailing :: "string \<Rightarrow> nat" where
  "trailing p =
     (if p \<noteq> [] \<and> last p = sep \<and> p \<noteq> replicate (length p) sep then 1 else 0)"

section \<open>Concrete file systems\<close>

text \<open>
  A file system given by a table from the paths the system accepts to what listing them
  yields; a path outside the table does not exist. Every path of the table is a directory,
  readable or not.
\<close>

definition table_env :: "string \<Rightarrow> (string \<times> (exn + string list)) list \<Rightarrow> os_env" where
  "table_env cwd table =
     \<lparr> getcwd = Inr cwd,
       listdir = (\<lambda>p. case map_of table p of None \<Rightarrow> Inl FileNotFoundError | Some r \<Rightarrow> r),
       isdir = (\<lambda>p. map_of table p \<noteq> None) \<rparr>"

text \<open>
  The tree \<^verbatim>\<open>/a/b/c\<close> with \<^verbatim>\<open>/a/ComfyUI\<close>, the process in \<^verbatim>\<open>/a/b/c\<close>. The paths
  \<^verbatim>\<open>.\<close> and \<^verbatim>\<open>..\<close> name the working directory and its parent, \<^verbatim>\<open>/a/b/\<close> names
  \<^verbatim>\<open>/a/b\<close>; the empty path names nothing (\<^verbatim>\<open>os.listdir('')\<close> raises
  \<open>FileNotFoundError\<close>).
\<close>

definition abc_env :: os_env where
  "abc_env = table_env ''/a/b/c''
     [(''/'', Inr [''a'']),
      (''/a'', Inr [''b'', ''ComfyUI'']),
      (''/a/b'', Inr [''c'']),
      (''/a/b/'', Inr [''c'']),
      (''/a/b/c'', Inr []),
      (''/a/ComfyUI'', Inr []),
      (''.'', Inr []),
      (''..'', Inr [''c''])]"


text \<open>
  A home directory below a \<^verbatim>\<open>/home\<close> that the process may enter but not list
  (mode 711); nothing anywhere is named like the target.
\<close>

definition locked_env :: os_env where
  "locked_env = table_env ''/home/u''
     [(''/'', Inr [''home'']),
      (''/home'', Inl PermissionError),
      (''/home/u'', Inr [''notes''])]"


text \<open>The process in \<^verbatim>\<open>/a\<close>, where \<^verbatim>\<open>ComfyUI\<close> is a plain file.\<close>

definition file_env :: os_env where
  "file_env = table_env ''/a''
     [(''/'', Inr [''a'']),
      (''/a'', Inr [''ComfyUI''])]"

text \<open>A process whose working directory has been removed: \<^verbatim>\<open>os.getcwd()\<close> raises.\<close>

definition gone_env :: os_env where
  "gone_env =
     \<lparr> getcwd = Inl FileNotFoundError,
       listdir = (\<lambda>p. Inl FileNotFoundError),
       isdir = (\<lambda>p. False) \<rparr>"

text \<open>
  A chain of 1200 directories named \<^verbatim>\<open>a\<close> below the root, the process in the deepest
  (its path has 2400 characters); \<^verbatim>\<open>ComfyUI\<close> is at level 100 of the chain. The empty
  path names nothing.
\<close>

definition deep :: "nat \<Rightarrow> string" where
  "deep n = concat (replicate n ''/a'')"

definition deep_env :: os_env where
  "deep_env =
     \<lparr> getcwd = Inr (deep 1200),
       listdir = (\<lambda>p. if p = [] then Inl FileNotFoundError
                      else if p = deep 100 then Inr [''a'', ''ComfyUI'']
                      else Inr [''a'']),
       isdir = (\<lambda>p. p \<noteq> []) \<rparr>"

section \<open>Termination\<close>

text \<open>
  \<^verbatim>\<open>os.path.dirname\<close> returns a prefix of its argument, so a parent step that changes
  the path shortens it: the recursion of \<^verbatim>\<open>find_path\<close> ends.
\<close>

lemma prefix_rstrip_sep: "prefix (rstrip_sep s) s"
proof -
  have "rev s = takeWhile (\<lambda>c. c = sep) (rev s) @ dropWhile (\<lambda>c. c = sep) (rev s)"
    by simp
  then have "s = rstrip_sep s @ rev (takeWhile (\<lambda>c. c = sep) (rev s))"
    unfolding rstrip_sep_def by (metis rev_append rev_rev_ident)
  then show ?thesis
    by (metis prefixI)
qed

lemma prefix_dirname: "prefix (dirname p) p"
proof -
  define head where "head = rev (dropWhile (\<lambda>c. c \<noteq> sep) (rev p))"
  have "rev p = takeWhile (\<lambda>c. c \<noteq> sep) (rev p) @ dropWhile (\<lambda>c. c \<noteq> sep) (rev p)"
    by simp
  then have "p = head @ rev (takeWhile (\<lambda>c. c \<noteq> sep) (rev p))"
    unfolding head_def by (metis rev_append rev_rev_ident)
  then have h: "prefix head p"
    by (metis prefixI)
  have "dirname p = head \<or> dirname p = rstrip_sep head"
    by (simp add: dirname_def head_def Let_def)
  then show ?thesis
    using h prefix_rstrip_sep [of head] by (auto intro: prefix_order.trans)
qed

lemma dirname_shorter: "dirname p \<noteq> p \<Longrightarrow> length (dirname p) < length p"
  using prefix_dirname [of p]
  by (simp add: prefix_length_less strict_prefix_def)

termination find_path
proof (relation "measure (\<lambda>(env, frames, name, path).
         case start_directory env path of Inl e \<Rightarrow> 0 | Inr p \<Rightarrow> length p)")
  show "wf (measure (\<lambda>(env, frames, name, path).
         case start_directory env path of Inl e \<Rightarrow> 0 | Inr p \<Rightarrow> length p))"
    by simp
next
  fix env :: os_env and frames :: nat and name :: string and path :: "string option"
    and p :: string and parent :: string
  assume start: "start_directory env path = Inr p"
    and parent: "os_path_dirname (frames - 1) p = Inr parent" "parent \<noteq> p"
  from parent have "parent = dirname p"
    by (simp add: os_path_dirname_def split: if_splits)
  with parent have "length parent < length p"
    using dirname_shorter [of p] by simp
  then show "((env, frames - 1, name, Some parent), (env, frames, name, path))
       \<in> measure (\<lambda>(env, frames, name, path).
         case start_directory env path of Inl e \<Rightarrow> 0 | Inr p \<Rightarrow> length p)"
    using start by (simp add: start_directory_def)
qed

declare find_path.simps [simp del]

termination hops
  by (relation "measure length") (auto simp: dirname_shorter)

declare hops.simps [simp del]

section \<open>Subscripting a sequence\<close>

lemma seq_getitem_position:
  "0 \<le> i \<Longrightarrow> i < int (length xs) \<Longrightarrow> seq_getitem xs i = Inr (xs ! nat i)"
  by (simp add: seq_getitem_def)

lemma seq_getitem_from_end:
  "i < 0 \<Longrightarrow> - int (length xs) \<le> i \<Longrightarrow>
   seq_getitem xs i = Inr (xs ! nat (i + int (length xs)))"
  by (simp add: seq_getitem_def)

lemma seq_getitem_beyond:
  "int (length xs) \<le> i \<Longrightarrow> seq_getitem xs i = Inl IndexError"
  by (simp add: seq_getitem_def)

lemma seq_getitem_before:
  "i < - int (length xs) \<Longrightarrow> seq_getitem xs i = Inl IndexError"
  by (simp add: seq_getitem_def)

section \<open>What \<^verbatim>\<open>get_value_at_index\<close> returns\<close>

text \<open>
  A position is a non-negative integer, counted from 0. (A negative index is not a position:
  Python counts it from the end, see \<open>seq_getitem_from_end\<close>, and raises \<open>IndexError\<close>
  below \<open>-len(S)\<close>, see \<open>seq_getitem_before\<close>.)
\<close>

text \<open>
  C6: for a step result that is a plain ordered sequence \<open>S\<close> and a valid position
  \<open>i < len(S)\<close>, \<^verbatim>\<open>get_value_at_index\<close> returns \<open>S[i]\<close>; the direct access is the only
  subscript it evaluates.
\<close>

theorem get_value_at_index_sequence:
  assumes "0 \<le> i" and "i < int (length S)"
  shows "get_value_at_index (PySeq S) i = ([IntKey i], Inr (S ! nat i))"
  using assms by (simp add: get_value_at_index_def seq_getitem_position)

theorem get_value_at_index_sequence_witness:
  "get_value_at_index (PySeq [PyInt 10, PyInt 20, PyInt 30]) 2 = ([IntKey 2], Inr (PyInt 30))"
  using get_value_at_index_sequence [of 2 "[PyInt 10, PyInt 20, PyInt 30]"] by simp

text \<open>
  C5: for a step result that is an ordered sequence \<open>S\<close> and a position \<open>i \<ge> len(S)\<close>,
  \<^verbatim>\<open>get_value_at_index\<close> raises \<open>IndexError\<close>, which leaves the function; the handler
  does not run, so \<^verbatim>\<open>obj["result"]\<close> is never evaluated.
\<close>

theorem get_value_at_index_out_of_bounds:
  assumes "int (length S) \<le> i"
  shows "get_value_at_index (PySeq S) i = ([IntKey i], Inl IndexError)"
  using assms by (simp add: get_value_at_index_def seq_getitem_beyond)

theorem get_value_at_index_out_of_bounds_witness:
  "get_value_at_index (PySeq [PyInt 10, PyInt 20, PyInt 30]) 5 = ([IntKey 5], Inl IndexError)"
  using get_value_at_index_out_of_bounds [of "[PyInt 10, PyInt 20, PyInt 30]" 5] by simp

text \<open>
  C1: for a step result that is a mapping without the key \<open>i\<close> but with the key
  \<^verbatim>\<open>"result"\<close> mapped to a sequence \<open>S\<close>, and a position \<open>i < len(S)\<close>,
  \<^verbatim>\<open>get_value_at_index\<close> returns \<open>S[i]\<close>: the direct access fails, the handler reads
  \<^verbatim>\<open>obj["result"]\<close> and subscripts it with \<open>i\<close>.
\<close>

theorem get_value_at_index_result_fallback:
  assumes "m (IntKey i) = None"
    and "m (StrKey ''result'') = Some (PySeq S)"
    and "0 \<le> i" and "i < int (length S)"
  shows "get_value_at_index (PyMap m) i =
           ([IntKey i, StrKey ''result'', IntKey i], Inr (S ! nat i))"
  using assms by (simp add: get_value_at_index_def seq_getitem_position)

theorem get_value_at_index_result_fallback_witness:
  "get_value_at_index (PyMap [StrKey ''result'' \<mapsto> PySeq [PyInt 10, PyInt 20, PyInt 30]]) 1 =
     ([IntKey 1, StrKey ''result'', IntKey 1], Inr (PyInt 20))"
  using get_value_at_index_result_fallback
    [of "[StrKey ''result'' \<mapsto> PySeq [PyInt 10, PyInt 20, PyInt 30]]" 1
        "[PyInt 10, PyInt 20, PyInt 30]"]
  by simp

text \<open>
  C4: for a step result that is a mapping with neither the key \<open>i\<close> nor the key
  \<^verbatim>\<open>"result"\<close>, \<^verbatim>\<open>get_value_at_index\<close> raises: the \<open>KeyError\<close> of \<^verbatim>\<open>obj["result"]\<close>
  is raised inside the handler and leaves the function.
\<close>

theorem get_value_at_index_no_result:
  assumes "m (IntKey i) = None" and "m (StrKey ''result'') = None"
  shows "get_value_at_index (PyMap m) i =
           ([IntKey i, StrKey ''result''], Inl (KeyError (StrKey ''result'')))"
  using assms by (simp add: get_value_at_index_def)

theorem get_value_at_index_no_result_witness:
  "get_value_at_index (PyMap [StrKey ''ui'' \<mapsto> PyNone]) 0 =
     ([IntKey 0, StrKey ''result''], Inl (KeyError (StrKey ''result'')))"
  using get_value_at_index_no_result [of "[StrKey ''ui'' \<mapsto> PyNone]" 0] by simp

text \<open>
  C9: for a step result that is a mapping with the integer \<open>i\<close> itself as a key,
  \<^verbatim>\<open>get_value_at_index\<close> returns the value of that key and evaluates no other subscript,
  whatever the mapping holds under \<^verbatim>\<open>"result"\<close>.
\<close>

theorem get_value_at_index_direct_key:
  assumes "m (IntKey i) = Some v"
  shows "get_value_at_index (PyMap m) i = ([IntKey i], Inr v)"
  using assms by (simp add: get_value_at_index_def)

theorem get_value_at_index_direct_key_witness:
  "get_value_at_index
     (PyMap [IntKey 0 \<mapsto> PyInt 7, StrKey ''result'' \<mapsto> PySeq [PyInt 8]]) 0 =
     ([IntKey 0], Inr (PyInt 7))"
  using get_value_at_index_direct_key
    [of "[IntKey 0 \<mapsto> PyInt 7, StrKey ''result'' \<mapsto> PySeq [PyInt 8]]" 0 "PyInt 7"]
  by simp

section \<open>One call of \<^verbatim>\<open>find_path\<close>\<close>

lemma find_path_no_frames: "find_path env 0 name path = ([], Inl RecursionError)"
  by (simp add: find_path.simps)

lemma find_path_no_start:
  "0 < frames \<Longrightarrow> start_directory env path = Inl e \<Longrightarrow>
   find_path env frames name path = ([], Inl e)"
  by (simp add: find_path.simps)

lemma find_path_start:
  "start_directory env path = Inr p \<Longrightarrow>
   find_path env frames name path = find_path env frames name (Some p)"
  by (simp add: find_path.simps [of env frames name path]
      find_path.simps [of env frames name "Some p"] start_directory_def)

lemma find_path_unlistable:
  "0 < frames \<Longrightarrow> listdir env p = Inl e \<Longrightarrow>
   find_path env frames name (Some p) = ([Listdir p], Inl e)"
  by (simp add: find_path.simps start_directory_def)

lemma find_path_few_frames:
  assumes "0 < frames" and "frames < 3" and "listdir env p = Inr entries"
  shows "find_path env frames name (Some p) = ([Listdir p], Inl RecursionError)"
proof -
  have "frames \<noteq> 0" and "frames - 1 < posixpath_frames"
    using assms(1,2) by (simp_all add: posixpath_frames_def)
  then show ?thesis
    using assms(3)
    by (simp add: find_path.simps [of env frames] start_directory_def os_path_join_def
        os_path_dirname_def)
qed

lemma enough_frames:
  "3 \<le> frames \<Longrightarrow> frames \<noteq> 0 \<and> \<not> frames - 1 < posixpath_frames"
  by (simp add: posixpath_frames_def)

lemma find_path_here:
  "3 \<le> frames \<Longrightarrow> listdir env p = Inr entries \<Longrightarrow> name \<in> set entries \<Longrightarrow>
   find_path env frames name (Some p) =
     ([Listdir p, Print (name @ '' found: '' @ join p name)], Inr (Some (join p name)))"
  using enough_frames [of frames]
  by (simp add: find_path.simps [of env frames] start_directory_def os_path_join_def)

lemma find_path_top:
  "3 \<le> frames \<Longrightarrow> listdir env p = Inr entries \<Longrightarrow> name \<notin> set entries \<Longrightarrow>
   dirname p = p \<Longrightarrow> find_path env frames name (Some p) = ([Listdir p], Inr None)"
  using enough_frames [of frames]
  by (simp add: find_path.simps [of env frames] start_directory_def os_path_dirname_def)

lemma find_path_up:
  "3 \<le> frames \<Longrightarrow> listdir env p = Inr entries \<Longrightarrow> name \<notin> set entries \<Longrightarrow>
   dirname p \<noteq> p \<Longrightarrow>
   find_path env frames name (Some p) =
     (Listdir p # fst (find_path env (frames - 1) name (Some (dirname p))),
      snd (find_path env (frames - 1) name (Some (dirname p))))"
  using enough_frames [of frames]
  by (simp add: find_path.simps [of env frames name "Some p"] start_directory_def
      os_path_dirname_def split: prod.splits)


lemma ancestor_Suc: "ancestor (Suc k) p = dirname (ancestor k p)"
  by (induction k arbitrary: p) simp_all

lemma ancestors_Suc:
  "map (\<lambda>j. Listdir (ancestor j p)) [0..<Suc (Suc k)] =
   Listdir p # map (\<lambda>j. Listdir (ancestor j (dirname p))) [0..<Suc k]"
proof -
  have "[0..<Suc (Suc k)] = 0 # [Suc 0..<Suc (Suc k)]"
    by (rule upt_conv_Cons) simp
  also have "[Suc 0..<Suc (Suc k)] = map Suc [0..<Suc k]"
    by (rule map_Suc_upt [symmetric])
  finally have "[0..<Suc (Suc k)] = 0 # map Suc [0..<Suc k]" .
  then show ?thesis
    by (simp add: comp_def del: upt_Suc)
qed


lemma hops_fixed: "dirname p = p \<Longrightarrow> hops p = 0"
  by (simp add: hops.simps)

lemma hops_up: "dirname p \<noteq> p \<Longrightarrow> hops p = Suc (hops (dirname p))"
  by (subst hops.simps) simp

lemma ancestor_hops_fixed: "dirname (ancestor (hops p) p) = ancestor (hops p) p"
proof (induction p rule: hops.induct)
  case (1 p)
  then show ?case
    by (cases "dirname p = p") (simp_all add: hops_fixed hops_up)
qed

lemma ancestor_moves_before_hops: "j < hops p \<Longrightarrow> dirname (ancestor j p) \<noteq> ancestor j p"
proof (induction p arbitrary: j rule: hops.induct)
  case (1 p)
  show ?case
  proof (cases "dirname p = p")
    case True
    with "1.prems" show ?thesis by (simp add: hops_fixed)
  next
    case False
    show ?thesis
    proof (cases j)
      case 0
      with False show ?thesis by simp
    next
      case (Suc i)
      with "1.prems" False have "i < hops (dirname p)"
        by (simp add: hops_up)
      with "1.IH" False Suc show ?thesis by simp
    qed
  qed
qed

text \<open>No match: the last level, \<open>hops p\<close>, still calls \<^verbatim>\<open>os.path.dirname\<close>.\<close>

lemma find_path_no_match:
  assumes "\<forall>j\<le>hops p. listable env (ancestor j p) \<and> \<not> has_entry env (ancestor j p) name"
    and "hops p + 3 \<le> frames"
  shows "find_path env frames name (Some p) =
           (map (\<lambda>j. Listdir (ancestor j p)) [0..<Suc (hops p)], Inr None)"
  using assms
proof (induction p arbitrary: frames rule: hops.induct)
  case (1 p)
  from "1.prems"(1) have here: "listable env p" "\<not> has_entry env p name"
    by (auto dest: spec [of _ 0])
  then obtain entries where entries: "listdir env p = Inr entries" "name \<notin> set entries"
    by (auto simp: listable_def has_entry_def split: sum.splits)
  from "1.prems"(2) have enough: "3 \<le> frames"
    by simp
  show ?case
  proof (cases "dirname p = p")
    case True
    with entries enough show ?thesis
      by (simp add: find_path_top hops_fixed)
  next
    case False
    have "\<forall>j\<le>hops (dirname p).
            listable env (ancestor j (dirname p)) \<and> \<not> has_entry env (ancestor j (dirname p)) name"
    proof (intro allI impI)
      fix j assume "j \<le> hops (dirname p)"
      then have "Suc j \<le> hops p"
        using False by (simp add: hops_up)
      with "1.prems"(1)
      show "listable env (ancestor j (dirname p)) \<and> \<not> has_entry env (ancestor j (dirname p)) name"
        by (auto dest: spec [of _ "Suc j"])
    qed
    moreover have "hops (dirname p) + 3 \<le> frames - 1"
      using "1.prems"(2) False by (simp add: hops_up)
    ultimately have "find_path env (frames - 1) name (Some (dirname p)) =
        (map (\<lambda>j. Listdir (ancestor j (dirname p))) [0..<Suc (hops (dirname p))], Inr None)"
      using "1.IH" False by simp
    then show ?thesis
      using entries False enough by (simp add: find_path_up hops_up ancestors_Suc del: upt_Suc)
  qed
qed

text \<open>Whatever the frames and the file system, no directory beyond the fixed point is listed.\<close>

lemma listdirs_le_hops:
  "length (filter is_Listdir (fst (find_path env frames name (Some p)))) \<le> Suc (hops p)"
proof (induction p arbitrary: frames rule: hops.induct)
  case (1 p)
  consider (none) "frames = 0"
    | (error) e where "0 < frames" "listdir env p = Inl e"
    | (few) entries where "0 < frames" "frames < 3" "listdir env p = Inr entries"
    | (found) entries where "3 \<le> frames" "listdir env p = Inr entries" "name \<in> set entries"
    | (top) entries where "3 \<le> frames" "listdir env p = Inr entries" "name \<notin> set entries"
        "dirname p = p"
    | (up) entries where "3 \<le> frames" "listdir env p = Inr entries" "name \<notin> set entries"
        "dirname p \<noteq> p"
  proof (cases "listdir env p")
    case (Inl e)
    then show ?thesis
      using that(1,2) by (cases "frames = 0") auto
  next
    case (Inr entries)
    have "frames = 0 \<or> (0 < frames \<and> frames < 3) \<or> 3 \<le> frames"
      by arith
    then show ?thesis
      using Inr that by blast
  qed
  then show ?case
  proof cases
    case none
    then show ?thesis by (simp add: find_path_no_frames)
  next
    case error
    then show ?thesis by (simp add: find_path_unlistable)
  next
    case few
    then show ?thesis by (simp add: find_path_few_frames)
  next
    case found
    then show ?thesis by (simp add: find_path_here)
  next
    case top
    then show ?thesis by (simp add: find_path_top)
  next
    case up
    with "1.IH" [of "frames - 1"] show ?thesis
      by (simp add: find_path_up hops_up)
  qed
qed

text \<open>
  An \<open>OSError\<close> of \<^verbatim>\<open>os.listdir\<close> is not caught anywhere: when the first \<open>k\<close>
  directories of the chain are listed without a match and the next one cannot be listed,
  the error leaves \<^verbatim>\<open>find_path\<close>.
\<close>

lemma find_path_listing_error:
  assumes "\<forall>j<k. listable env (ancestor j p) \<and> \<not> has_entry env (ancestor j p) name"
    and "listdir env (ancestor k p) = Inl e"
    and "\<forall>j<k. dirname (ancestor j p) \<noteq> ancestor j p"
    and "k + 2 \<le> frames"
  shows "find_path env frames name (Some p) =
           (map (\<lambda>j. Listdir (ancestor j p)) [0..<Suc k], Inl e)"
  using assms
proof (induction k arbitrary: p frames)
  case 0
  then show ?case by (simp add: find_path_unlistable)
next
  case (Suc k)
  from Suc.prems(1) have here: "listable env p" "\<not> has_entry env p name"
    by (auto dest: spec [of _ 0])
  then obtain entries where entries: "listdir env p = Inr entries" "name \<notin> set entries"
    by (auto simp: listable_def has_entry_def split: sum.splits)
  from Suc.prems(3) have moves: "dirname p \<noteq> p"
    by (auto dest: spec [of _ 0])
  have frames: "3 \<le> frames" "k + 2 \<le> frames - 1"
    using Suc.prems(4) by simp_all
  have "\<forall>j<k. listable env (ancestor j (dirname p)) \<and> \<not> has_entry env (ancestor j (dirname p)) name"
    using Suc.prems(1) by (auto dest: spec [of _ "Suc j" for j])
  moreover have "listdir env (ancestor k (dirname p)) = Inl e"
    using Suc.prems(2) by simp
  moreover have "\<forall>j<k. dirname (ancestor j (dirname p)) \<noteq> ancestor j (dirname p)"
    using Suc.prems(3) by (auto dest: spec [of _ "Suc j" for j])
  ultimately have "find_path env (frames - 1) name (Some (dirname p)) =
      (map (\<lambda>j. Listdir (ancestor j (dirname p))) [0..<Suc k], Inl e)"
    using frames(2) by (rule Suc.IH)
  then show ?case
    using entries moves frames(1) by (simp add: find_path_up ancestors_Suc del: upt_Suc)
qed

text \<open>
  The recursion limit: when the chain is listed without a match and keeps moving for \<open>k\<close>
  levels and only \<open>k + 2\<close> frames are admitted, level \<open>k\<close> is still listed, and the call
  of \<^verbatim>\<open>os.path.dirname\<close> or \<^verbatim>\<open>os.path.join\<close> there raises \<open>RecursionError\<close>.
\<close>

lemma find_path_recursion_limit:
  assumes "\<forall>j<k. listable env (ancestor j p) \<and> \<not> has_entry env (ancestor j p) name"
    and "listable env (ancestor k p)"
    and "\<forall>j<k. dirname (ancestor j p) \<noteq> ancestor j p"
  shows "find_path env (k + 2) name (Some p) =
           (map (\<lambda>j. Listdir (ancestor j p)) [0..<Suc k], Inl RecursionError)"
  using assms
proof (induction k arbitrary: p)
  case 0
  then obtain entries where "listdir env p = Inr entries"
    by (auto simp: listable_def split: sum.splits)
  then show ?case
    by (simp add: find_path_few_frames)
next
  case (Suc k)
  from Suc.prems(1) have here: "listable env p" "\<not> has_entry env p name"
    by (auto dest: spec [of _ 0])
  then obtain entries where entries: "listdir env p = Inr entries" "name \<notin> set entries"
    by (auto simp: listable_def has_entry_def split: sum.splits)
  from Suc.prems(3) have moves: "dirname p \<noteq> p"
    by (auto dest: spec [of _ 0])
  have "\<forall>j<k. listable env (ancestor j (dirname p)) \<and> \<not> has_entry env (ancestor j (dirname p)) name"
    using Suc.prems(1) by (auto dest: spec [of _ "Suc j" for j])
  moreover have "listable env (ancestor k (dirname p))"
    using Suc.prems(2) by simp
  moreover have "\<forall>j<k. dirname (ancestor j (dirname p)) \<noteq> ancestor j (dirname p)"
    using Suc.prems(3) by (auto dest: spec [of _ "Suc j" for j])
  ultimately have "find_path env (k + 2) name (Some (dirname p)) =
      (map (\<lambda>j. Listdir (ancestor j (dirname p))) [0..<Suc k], Inl RecursionError)"
    by (rule Suc.IH)
  then show ?case
    using entries moves by (simp add: find_path_up ancestors_Suc del: upt_Suc)
qed

section \<open>Parent steps and the depth of a path\<close>

lemma components_from_append:
  "components_from b (xs @ ys) =
     components_from b xs + components_from (if xs = [] then b else last xs = sep) ys"
  by (induction xs arbitrary: b) auto

lemma components_from_seps: "components_from b (replicate n sep) = 0"
  by (induction n arbitrary: b) auto

lemma components_from_no_sep:
  "sep \<notin> set t \<Longrightarrow> components_from b t = (if b \<and> t \<noteq> [] then 1 else 0)"
proof (induction t arbitrary: b)
  case Nil
  then show ?case by simp
next
  case (Cons c t)
  then show ?case by (cases t) auto
qed

lemma split_at_last_sep:
  obtains h t where "p = h @ t" and "sep \<notin> set t" and "h = [] \<or> last h = sep"
    and "rev (dropWhile (\<lambda>c. c \<noteq> sep) (rev p)) = h"
proof
  let ?h = "rev (dropWhile (\<lambda>c. c \<noteq> sep) (rev p))"
  let ?t = "rev (takeWhile (\<lambda>c. c \<noteq> sep) (rev p))"
  have "rev p = takeWhile (\<lambda>c. c \<noteq> sep) (rev p) @ dropWhile (\<lambda>c. c \<noteq> sep) (rev p)"
    by simp
  then show "p = ?h @ ?t"
    by (metis rev_append rev_rev_ident)
  show "sep \<notin> set ?t"
    by (auto dest: set_takeWhileD)
  show "?h = [] \<or> last ?h = sep"
    using hd_dropWhile [of "\<lambda>c. c \<noteq> sep" "rev p"] by (auto simp: last_rev)
  show "?h = ?h" ..
qed

lemma rstrip_sep_split:
  obtains n where "h = rstrip_sep h @ replicate n sep"
    and "rstrip_sep h = [] \<or> last (rstrip_sep h) \<noteq> sep"
proof
  let ?k = "takeWhile (\<lambda>c. c = sep) (rev h)"
  have all: "replicate (length ?k) sep = ?k"
    by (rule replicate_length_same) (auto dest: set_takeWhileD)
  have "rev h = ?k @ dropWhile (\<lambda>c. c = sep) (rev h)"
    by simp
  then have "h = rstrip_sep h @ rev ?k"
    unfolding rstrip_sep_def by (metis rev_append rev_rev_ident)
  also have "rev ?k = replicate (length ?k) sep"
    by (subst all [symmetric]) simp
  finally show "h = rstrip_sep h @ replicate (length ?k) sep" .
  show "rstrip_sep h = [] \<or> last (rstrip_sep h) \<noteq> sep"
    using hd_dropWhile [of "\<lambda>c. c = sep" "rev h"] by (auto simp: rstrip_sep_def last_rev)
qed

lemma dirname_descends:
  assumes "dirname p \<noteq> p"
  shows "depth (dirname p) + trailing (dirname p) < depth p + trailing p"
proof -
  obtain h t where p: "p = h @ t" and t: "sep \<notin> set t" and h: "h = [] \<or> last h = sep"
    and head: "rev (dropWhile (\<lambda>c. c \<noteq> sep) (rev p)) = h"
    by (rule split_at_last_sep)
  have dn: "dirname p = (if h \<noteq> [] \<and> h \<noteq> replicate (length h) sep then rstrip_sep h else h)"
    unfolding dirname_def Let_def head ..
  show ?thesis
  proof (cases "h \<noteq> [] \<and> h \<noteq> replicate (length h) sep")
    case False
    then have d: "dirname p = h"
      by (simp only: dn if_False)
    with assms p have "t \<noteq> []" by auto
    from False have seps: "h = replicate (length h) sep" by auto
    have "depth h = 0"
      unfolding depth_def by (subst seps) (rule components_from_seps)
    moreover have "trailing h = 0"
      using False by (auto simp: trailing_def)
    moreover have "depth p = 1"
      using h t \<open>t \<noteq> []\<close> \<open>depth h = 0\<close>
      by (auto simp: depth_def p components_from_append components_from_no_sep)
    ultimately show ?thesis
      using d by simp
  next
    case True
    then have d: "dirname p = rstrip_sep h"
      by (simp add: dn)
    obtain n where n: "h = rstrip_sep h @ replicate n sep"
      and r: "rstrip_sep h = [] \<or> last (rstrip_sep h) \<noteq> sep"
      by (rule rstrip_sep_split)
    have r_ne: "rstrip_sep h \<noteq> []"
    proof
      assume "rstrip_sep h = []"
      with n have "h = replicate n sep" by simp
      then have "h = replicate (length h) sep" by (metis length_replicate)
      with True show False by simp
    qed
    with r have r_last: "last (rstrip_sep h) \<noteq> sep" by simp
    have "trailing (rstrip_sep h) = 0"
      using r_last by (simp add: trailing_def)
    have dh: "depth h = depth (rstrip_sep h)"
      unfolding depth_def by (subst n) (simp add: components_from_append components_from_seps)
    have last_h: "last h = sep"
      using True h by simp
    have dp: "depth p = depth h + (if t = [] then 0 else 1)"
      using True last_h t by (simp add: depth_def p components_from_append components_from_no_sep)
    show ?thesis
    proof (cases "t = []")
      case True
      with p have "p = h" by simp
      then have "trailing p = 1"
        using \<open>h \<noteq> [] \<and> h \<noteq> replicate (length h) sep\<close> last_h by (simp add: trailing_def)
      with dp dh d \<open>trailing (rstrip_sep h) = 0\<close> show ?thesis by simp
    next
      case False
      with dp dh d \<open>trailing (rstrip_sep h) = 0\<close> show ?thesis by simp
    qed
  qed
qed

lemma hops_le_depth_trailing: "hops p \<le> depth p + trailing p"
proof (induction p rule: hops.induct)
  case (1 p)
  show ?case
  proof (cases "dirname p = p")
    case True
    then show ?thesis by (simp add: hops_fixed)
  next
    case False
    with "1.IH" dirname_descends [of p] show ?thesis
      by (simp add: hops_up)
  qed
qed

lemma dirname_fixed_seps:
  assumes "dirname p = p"
  shows "p = replicate (length p) sep"
proof -
  obtain h t where p: "p = h @ t" and t: "sep \<notin> set t" and h: "h = [] \<or> last h = sep"
    and head: "rev (dropWhile (\<lambda>c. c \<noteq> sep) (rev p)) = h"
    by (rule split_at_last_sep)
  have dn: "dirname p = (if h \<noteq> [] \<and> h \<noteq> replicate (length h) sep then rstrip_sep h else h)"
    unfolding dirname_def Let_def head ..
  show ?thesis
  proof (cases "h \<noteq> [] \<and> h \<noteq> replicate (length h) sep")
    case False
    then have "dirname p = h"
      by (simp only: dn if_False)
    with assms p have "p = h" by simp
    with False show ?thesis by auto
  next
    case True
    then have d: "dirname p = rstrip_sep h"
      by (simp add: dn)
    obtain n where n: "h = rstrip_sep h @ replicate n sep"
      and r: "rstrip_sep h = [] \<or> last (rstrip_sep h) \<noteq> sep"
      by (rule rstrip_sep_split)
    from d assms p have "rstrip_sep h = h @ t" by simp
    with n have "length (rstrip_sep h) = length (rstrip_sep h) + n + length t"
      by (metis length_append length_replicate add.assoc)
    then have "n = 0" by simp
    with n have "rstrip_sep h = h" by simp
    with r True h show ?thesis by simp
  qed
qed

lemma dirname_nonempty:
  assumes "sep \<in> set p"
  shows "dirname p \<noteq> []"
proof -
  obtain h t where p: "p = h @ t" and t: "sep \<notin> set t" and h: "h = [] \<or> last h = sep"
    and head: "rev (dropWhile (\<lambda>c. c \<noteq> sep) (rev p)) = h"
    by (rule split_at_last_sep)
  have dn: "dirname p = (if h \<noteq> [] \<and> h \<noteq> replicate (length h) sep then rstrip_sep h else h)"
    unfolding dirname_def Let_def head ..
  from assms p t have h_ne: "h \<noteq> []" by auto
  show ?thesis
  proof (cases "h \<noteq> [] \<and> h \<noteq> replicate (length h) sep")
    case False
    then have "dirname p = h"
      by (simp only: dn if_False)
    with h_ne show ?thesis by simp
  next
    case True
    then have d: "dirname p = rstrip_sep h"
      by (simp add: dn)
    obtain n where n: "h = rstrip_sep h @ replicate n sep"
      by (rule rstrip_sep_split)
    show ?thesis
    proof
      assume "dirname p = []"
      with d n have "h = replicate n sep" by simp
      then have "h = replicate (length h) sep" by (metis length_replicate)
      with True show False by simp
    qed
  qed
qed

lemma isabs_dirname:
  assumes "isabs p"
  shows "isabs (dirname p)"
proof -
  from assms have "sep \<in> set p"
    by (cases p) (auto simp: isabs_def)
  then have "dirname p \<noteq> []"
    by (rule dirname_nonempty)
  moreover from prefix_dirname [of p] obtain zs where "p = dirname p @ zs"
    by (auto simp: prefix_def)
  ultimately have "hd (dirname p) = hd p"
    by (metis hd_append2)
  with assms \<open>dirname p \<noteq> []\<close> show ?thesis
    by (simp add: isabs_def)
qed

lemma isabs_ancestor: "isabs p \<Longrightarrow> isabs (ancestor k p)"
  by (induction k arbitrary: p) (simp_all add: isabs_dirname)



section \<open>A chain deeper than the recursion limit\<close>

lemma deep_Suc: "deep (Suc n) = deep n @ ''/a''"
proof -
  have "replicate (Suc n) ''/a'' = replicate n ''/a'' @ [''/a'']"
    by (simp only: replicate_append_same) simp
  then show ?thesis
    by (simp add: deep_def)
qed

lemma length_deep: "length (deep n) = 2 * n"
  by (induction n) (simp_all add: deep_def)

lemma deep_ends: "deep (Suc n) \<noteq> [] \<and> last (deep (Suc n)) \<noteq> sep"
  by (simp add: deep_Suc sep_def)

lemma dirname_component:
  assumes "q \<noteq> []" and "last q \<noteq> sep"
  shows "dirname (q @ ''/a'') = q"
proof -
  have head: "rev (dropWhile (\<lambda>c. c \<noteq> sep) (rev (q @ ''/a''))) = q @ ''/''"
    by (simp add: sep_def)
  have "hd (rev q) \<noteq> sep"
    using assms by (simp add: hd_rev)
  then have "dropWhile (\<lambda>c. c = sep) (rev q) = rev q"
    using assms(1) by (cases "rev q") simp_all
  then have strip: "rstrip_sep (q @ ''/'') = q"
    by (simp add: rstrip_sep_def sep_def)
  have "q @ ''/'' \<noteq> replicate (length (q @ ''/'')) sep"
  proof
    assume "q @ ''/'' = replicate (length (q @ ''/'')) sep"
    then have "set (q @ ''/'') \<subseteq> {sep}"
      by (metis set_replicate_conv_if empty_subsetI subset_refl)
    with assms show False
      by (auto dest: last_in_set)
  qed
  then show ?thesis
    unfolding dirname_def Let_def head using strip by simp
qed

lemma dirname_deep: "dirname (deep (Suc (Suc n))) = deep (Suc n)"
  using deep_ends [of n] by (subst deep_Suc) (simp add: dirname_component)

lemma ancestor_deep: "ancestor j (deep (j + Suc n)) = deep (Suc n)"
  by (induction j) (simp_all add: dirname_deep)

lemma deep_chain_runs_out:
  assumes "name \<noteq> ''a''"
  shows "find_path deep_env 1000 name None =
           (map (\<lambda>j. Listdir (ancestor j (deep 1200))) [0..<999], Inl RecursionError)"
proof -
  have level: "ancestor j (deep 1200) = deep (Suc (1199 - j))" if "j \<le> 998" for j
  proof -
    from that have "j + Suc (1199 - j) = 1200" by simp
    with ancestor_deep [of j "1199 - j"] show ?thesis by simp
  qed
  have listed: "listable deep_env (deep (Suc m))" for m
    using deep_ends [of m] by (simp add: listable_def deep_env_def)
  have absent: "\<not> has_entry deep_env (deep (Suc m)) name" if "100 \<le> m" for m
  proof -
    have "length (deep (Suc m)) \<noteq> length (deep 100)"
      using that by (simp add: length_deep)
    then have "deep (Suc m) \<noteq> deep 100"
      by auto
    then show ?thesis
      using deep_ends [of m] assms by (simp add: has_entry_def deep_env_def)
  qed
  have moves: "dirname (deep (Suc m)) \<noteq> deep (Suc m)" if "1 \<le> m" for m
  proof -
    from that obtain m' where m: "m = Suc m'"
      by (cases m) simp_all
    have "length (deep (Suc m')) \<noteq> length (deep (Suc (Suc m')))"
      by (simp add: length_deep)
    then have "deep (Suc m') \<noteq> deep (Suc (Suc m'))"
      by auto
    then show ?thesis
      unfolding m by (simp add: dirname_deep)
  qed
  have below: "\<forall>j<998. listable deep_env (ancestor j (deep 1200))
                 \<and> \<not> has_entry deep_env (ancestor j (deep 1200)) name"
    by (simp add: level listed absent)
  have top: "listable deep_env (ancestor 998 (deep 1200))"
    using listed [of "1199 - 998"] by (simp only: level [of 998] order_refl)
  have moving: "\<forall>j<998. dirname (ancestor j (deep 1200)) \<noteq> ancestor j (deep 1200)"
    by (simp add: level moves)
  have "find_path deep_env (998 + 2) name (Some (deep 1200)) =
          (map (\<lambda>j. Listdir (ancestor j (deep 1200))) [0..<Suc 998], Inl RecursionError)"
    using below top moving by (rule find_path_recursion_limit)
  moreover have "start_directory deep_env None = Inr (deep 1200)"
    by (simp add: start_directory_def deep_env_def)
  ultimately show ?thesis
    by (simp add: find_path_start del: upt_Suc)
qed

section \<open>The search of \<^verbatim>\<open>find_path\<close>\<close>

text \<open>Unfolding the definitions on a concrete file system and a concrete path.\<close>

lemmas env_simps = table_env_def start_directory_def dirname_def rstrip_sep_def sep_def join_def
  Let_def listable_def has_entry_def isabs_def os_path_join_def os_path_dirname_def
  posixpath_frames_def







text \<open>
  C7, as the code has it: when every directory on the parent chain of the start directory,
  up to the fixed point of \<^verbatim>\<open>os.path.dirname\<close>, can be listed, none has the name as an
  entry, and the interpreter admits the \<open>hops P + 3\<close> frames that the chain takes,
  \<^verbatim>\<open>find_path\<close> stops where the parent equals the current directory and returns
  \<open>None\<close>; nothing is raised and nothing printed.
\<close>

theorem find_path_absent_returns_None:
  assumes "start_directory env path = Inr P"
    and "\<forall>j\<le>hops P. listable env (ancestor j P) \<and> \<not> has_entry env (ancestor j P) name"
    and "hops P + 3 \<le> frames"
  shows "find_path env frames name path =
           (map (\<lambda>j. Listdir (ancestor j P)) [0..<Suc (hops P)], Inr None)
         \<and> dirname (ancestor (hops P) P) = ancestor (hops P) P
         \<and> (\<forall>j<hops P. dirname (ancestor j P) \<noteq> ancestor j P)"
  using assms
  by (simp add: find_path_start find_path_no_match ancestor_hops_fixed
      ancestor_moves_before_hops del: upt_Suc)

theorem find_path_absent_returns_None_witness:
  "find_path abc_env 1000 ''extra_model_paths.yaml'' None =
     ([Listdir ''/a/b/c'', Listdir ''/a/b'', Listdir ''/a'', Listdir ''/''], Inr None)
   \<and> dirname ''/'' = ''/''"
proof -
  have start: "start_directory abc_env None = Inr ''/a/b/c''"
    by (simp add: abc_env_def env_simps)
  have hops: "hops ''/a/b/c'' = 3"
    by (simp add: hops.simps env_simps)
  have absent: "\<forall>j\<le>hops ''/a/b/c''. listable abc_env (ancestor j ''/a/b/c'')
                  \<and> \<not> has_entry abc_env (ancestor j ''/a/b/c'') ''extra_model_paths.yaml''"
    by (simp add: hops eval_nat_numeral le_Suc_eq all_conj_distrib abc_env_def env_simps)
  have frames: "hops ''/a/b/c'' + 3 \<le> 1000"
    by (simp add: hops)
  show ?thesis
    using find_path_absent_returns_None [OF start absent frames]
    by (simp add: hops eval_nat_numeral env_simps)
qed

text \<open>
  C7 as stated, for every starting path, fails: neither an \<open>OSError\<close> of
  \<^verbatim>\<open>os.listdir\<close> nor the \<open>RecursionError\<close> of the interpreter is caught. From
  \<^verbatim>\<open>/home/u\<close> below an unreadable \<^verbatim>\<open>/home\<close> the default search for a name that exists
  nowhere raises \<open>PermissionError\<close>; from the relative start \<^verbatim>\<open>.\<close> the parent is the
  empty path, whose listing raises \<open>FileNotFoundError\<close>; and from the bottom of the chain
  of 1200 directories, with 1000 frames admitted, the default search raises
  \<open>RecursionError\<close>.
\<close>

theorem find_path_raises_counterexample:
  "find_path locked_env 1000 ''extra_model_paths.yaml'' None =
     ([Listdir ''/home/u'', Listdir ''/home''], Inl PermissionError)
   \<and> find_path abc_env 1000 ''extra_model_paths.yaml'' (Some ''.'') =
     ([Listdir ''.'', Listdir []], Inl FileNotFoundError)
   \<and> getcwd deep_env = Inr (deep 1200)
   \<and> snd (find_path deep_env 1000 ''extra_model_paths.yaml'' None) = Inl RecursionError"
proof -
  have errors: "find_path locked_env 1000 ''extra_model_paths.yaml'' None =
     ([Listdir ''/home/u'', Listdir ''/home''], Inl PermissionError)"
    "find_path abc_env 1000 ''extra_model_paths.yaml'' (Some ''.'') =
     ([Listdir ''.'', Listdir []], Inl FileNotFoundError)"
    by (simp_all add: find_path.simps locked_env_def abc_env_def env_simps)
  have chain: "getcwd deep_env = Inr (deep 1200)"
    by (simp add: deep_env_def)
  have limit: "snd (find_path deep_env 1000 ''extra_model_paths.yaml'' None) = Inl RecursionError"
    by (simp add: deep_chain_runs_out del: upt_Suc)
  show ?thesis
    using errors chain limit by (intro conjI)
qed

lemma prefix_ancestor: "prefix (ancestor k p) p"
proof (induction k arbitrary: p)
  case 0
  show ?case by simp
next
  case (Suc k)
  have "prefix (ancestor k (dirname p)) (dirname p)"
    by (rule Suc.IH)
  then show ?case
    using prefix_dirname [of p] by (auto intro: prefix_order.trans)
qed

lemma relative_fixed_point:
  assumes "\<not> isabs p"
  shows "ancestor (hops p) p = []"
proof (rule ccontr)
  let ?q = "ancestor (hops p) p"
  assume nonempty: "?q \<noteq> []"
  have seps: "?q = replicate (length ?q) sep"
    by (rule dirname_fixed_seps) (rule ancestor_hops_fixed)
  from nonempty have "hd ?q = hd (replicate (length ?q) sep)"
    using seps by simp
  with nonempty have first: "hd ?q = sep"
    by (cases "length ?q") simp_all
  from prefix_ancestor [of "hops p" p] obtain zs where split: "p = ?q @ zs"
    by (auto simp: prefix_def)
  have "hd p = hd (?q @ zs)"
    by (rule arg_cong [where f = hd]) (rule split)
  also have "hd (?q @ zs) = hd ?q"
    using nonempty by (rule hd_append2)
  finally have "hd p = sep"
    using first by simp
  moreover have "p \<noteq> []"
    using split nonempty by (metis append_is_Nil_conv)
  ultimately show False
    using assms by (simp add: isabs_def)
qed

text \<open>
  C3, as the code has it: \<^verbatim>\<open>find_path\<close> terminates on every input (it is a total
  function, and the proof of that uses the length of the path, which decreases with every
  parent step, not the frames). When \<^verbatim>\<open>os.getcwd\<close> fails nothing is listed. From a start
  directory \<open>P\<close>, \<open>hops P\<close> parent steps reach the fixed point of \<^verbatim>\<open>os.path.dirname\<close>;
  the call lists at most \<open>hops P + 1\<close> directories, whatever the file system and the frames,
  so it takes at most \<open>hops P\<close> parent steps; \<open>hops P\<close> is at most the depth of \<open>P\<close> plus
  one, and at most the depth when \<open>P\<close> does not end in a separator that the first step
  strips. The fixed point is the root (an absolute path of depth 0) for an absolute
  \<open>P\<close>, and the empty path for a relative \<open>P\<close>.
\<close>

theorem find_path_terminates_within_depth:
  "(\<forall>e. start_directory env path = Inl e \<longrightarrow> fst (find_path env frames name path) = [])
   \<and> (\<forall>P. start_directory env path = Inr P \<longrightarrow>
          dirname (ancestor (hops P) P) = ancestor (hops P) P
        \<and> length (filter is_Listdir (fst (find_path env frames name path))) \<le> Suc (hops P)
        \<and> hops P \<le> depth P + 1
        \<and> (trailing P = 0 \<longrightarrow> hops P \<le> depth P)
        \<and> (isabs P \<longrightarrow> isabs (ancestor (hops P) P) \<and> depth (ancestor (hops P) P) = 0)
        \<and> (\<not> isabs P \<longrightarrow> ancestor (hops P) P = []))"
proof (intro conjI allI impI)
  fix e assume "start_directory env path = Inl e"
  then show "fst (find_path env frames name path) = []"
    by (cases "frames = 0") (simp_all add: find_path_no_frames find_path_no_start)
next
  fix P assume "start_directory env path = Inr P"
  then have "find_path env frames name path = find_path env frames name (Some P)"
    by (rule find_path_start)
  then show "length (filter is_Listdir (fst (find_path env frames name path))) \<le> Suc (hops P)"
    by (simp add: listdirs_le_hops)
next
  fix P
  show "dirname (ancestor (hops P) P) = ancestor (hops P) P"
    by (rule ancestor_hops_fixed)
  have "trailing P \<le> 1"
    by (simp add: trailing_def)
  with hops_le_depth_trailing [of P] show "hops P \<le> depth P + 1"
    by simp
next
  fix P assume "trailing P = 0"
  with hops_le_depth_trailing [of P] show "hops P \<le> depth P"
    by simp
next
  fix P assume "isabs P"
  then show "isabs (ancestor (hops P) P)"
    by (rule isabs_ancestor)
next
  fix P
  have "ancestor (hops P) P = replicate (length (ancestor (hops P) P)) sep"
    by (rule dirname_fixed_seps) (rule ancestor_hops_fixed)
  then have "depth (ancestor (hops P) P) =
      components_from True (replicate (length (ancestor (hops P) P)) sep)"
    unfolding depth_def by simp
  then show "depth (ancestor (hops P) P) = 0"
    by (simp add: components_from_seps)
next
  fix P assume "\<not> isabs P"
  then show "ancestor (hops P) P = []"
    by (rule relative_fixed_point)
qed

theorem find_path_terminates_within_depth_witness:
  "ancestor 3 ''/a/b/c'' = ''/'' \<and> dirname ''/'' = ''/''
   \<and> depth ''/a/b/c'' = 3 \<and> hops ''/a/b/c'' \<le> 3
   \<and> length (filter is_Listdir (fst (find_path abc_env 1000 ''ComfyUI'' None))) \<le> 4
   \<and> isabs ''/'' \<and> depth ''/'' = 0
   \<and> ancestor 1 ''.'' = []
   \<and> fst (find_path gone_env 1000 ''ComfyUI'' None) = []"
proof -
  have start: "start_directory abc_env None = Inr ''/a/b/c''"
    by (simp add: abc_env_def env_simps)
  have hops: "hops ''/a/b/c'' = 3"
    by (simp add: hops.simps env_simps)
  have depth: "depth ''/a/b/c'' = 3"
    by (simp add: depth_def sep_def)
  have top: "ancestor 3 ''/a/b/c'' = ''/''"
    by (simp add: eval_nat_numeral env_simps)
  have normal: "trailing ''/a/b/c'' = 0" "isabs ''/a/b/c''"
    by (simp_all add: trailing_def env_simps)
  have dot: "start_directory abc_env (Some ''.'') = Inr ''.''" "\<not> isabs ''.''" "hops ''.'' = 1"
    by (simp_all add: hops.simps env_simps)
  have gone: "start_directory gone_env None = Inl FileNotFoundError"
    by (simp add: gone_env_def start_directory_def)
  show ?thesis
    using find_path_terminates_within_depth [of abc_env None 1000 "''ComfyUI''"] start normal
      find_path_terminates_within_depth [of abc_env "Some ''.''" 1000 "''ComfyUI''"] dot
      find_path_terminates_within_depth [of gone_env None 1000 "''ComfyUI''"] gone
    by (simp add: hops depth top)
qed

text \<open>
  C3 as stated, for any starting path, fails in its bound and in its fixed point. From
  \<^verbatim>\<open>/a/b/\<close>, a path of depth 2, the search for a name that exists nowhere lists four
  directories, three parent steps: the first step only strips the separator. And the
  parent steps from the relative path \<^verbatim>\<open>b/c\<close> end at the empty path, which is not the
  root.
\<close>

theorem find_path_depth_counterexample:
  "find_path abc_env 1000 ''extra_model_paths.yaml'' (Some ''/a/b/'') =
     ([Listdir ''/a/b/'', Listdir ''/a/b'', Listdir ''/a'', Listdir ''/''], Inr None)
   \<and> depth ''/a/b/'' = 2 \<and> hops ''/a/b/'' = 3
   \<and> hops ''b/c'' = 2 \<and> ancestor 2 ''b/c'' = [] \<and> dirname [] = [] \<and> \<not> isabs []"
  by (simp add: find_path.simps hops.simps abc_env_def depth_def eval_nat_numeral env_simps)

section \<open>The effect of \<^verbatim>\<open>add_comfyui_directory_to_sys_path\<close>\<close>

text \<open>
  C10: \<^verbatim>\<open>add_comfyui_directory_to_sys_path\<close> appends the path that
  \<^verbatim>\<open>find_path("ComfyUI")\<close> returns to the end of \<^verbatim>\<open>sys.path\<close> when that path is a
  directory, and leaves \<^verbatim>\<open>sys.path\<close> as it was in every other case (nothing found,
  found but not a directory, or an exception); so \<^verbatim>\<open>sys.path\<close> changes exactly when a
  directory was found.
\<close>

theorem add_comfyui_directory_to_sys_path_frame:
  "(\<forall>p. snd (find_path env frames ''ComfyUI'' None) = Inr (Some p) \<and> isdir env p \<longrightarrow>
        fst (snd (add_comfyui_directory_to_sys_path env frames sys_path)) = sys_path @ [p])
   \<and> (\<not> (\<exists>p. snd (find_path env frames ''ComfyUI'' None) = Inr (Some p) \<and> isdir env p) \<longrightarrow>
        fst (snd (add_comfyui_directory_to_sys_path env frames sys_path)) = sys_path)
   \<and> ((fst (snd (add_comfyui_directory_to_sys_path env frames sys_path)) \<noteq> sys_path) =
        (\<exists>p. snd (find_path env frames ''ComfyUI'' None) = Inr (Some p) \<and> isdir env p))"
  by (auto simp: add_comfyui_directory_to_sys_path_def split: prod.splits sum.splits option.splits)

theorem add_comfyui_directory_to_sys_path_frame_witness:
  "fst (snd (add_comfyui_directory_to_sys_path abc_env 1000 [''/usr/lib/python3''])) =
     [''/usr/lib/python3'', ''/a/ComfyUI'']
   \<and> snd (find_path file_env 1000 ''ComfyUI'' None) = Inr (Some ''/a/ComfyUI'')
   \<and> fst (snd (add_comfyui_directory_to_sys_path file_env 1000 [''/usr/lib/python3''])) =
     [''/usr/lib/python3'']
   \<and> snd (find_path locked_env 1000 ''ComfyUI'' None) = Inl PermissionError
   \<and> fst (snd (add_comfyui_directory_to_sys_path locked_env 1000 [''/usr/lib/python3''])) =
     [''/usr/lib/python3'']"
proof -
  have found: "snd (find_path abc_env 1000 ''ComfyUI'' None) = Inr (Some ''/a/ComfyUI'')"
    "isdir abc_env ''/a/ComfyUI''"
    by (simp_all add: find_path.simps abc_env_def env_simps)
  have plain: "snd (find_path file_env 1000 ''ComfyUI'' None) = Inr (Some ''/a/ComfyUI'')"
    "\<not> isdir file_env ''/a/ComfyUI''"
    by (simp_all add: find_path.simps file_env_def env_simps)
  have locked: "snd (find_path locked_env 1000 ''ComfyUI'' None) = Inl PermissionError"
    by (simp add: find_path.simps locked_env_def env_simps)
  show ?thesis
    using add_comfyui_directory_to_sys_path_frame [of abc_env 1000 "[''/usr/lib/python3'']"]
      add_comfyui_directory_to_sys_path_frame [of file_env 1000 "[''/usr/lib/python3'']"]
      add_comfyui_directory_to_sys_path_frame [of locked_env 1000 "[''/usr/lib/python3'']"]
      found plain locked
    by simp
qed

end
